theory Spec2Isabelle
  imports Complex_Main
begin

section \<open>Paths and names\<close>

text \<open>
  The player keeps \<^verbatim>\<open>pathlib.Path\<close> objects. A path is modelled by its string form
  (POSIX separators, ASCII bytes); \<open>name_of\<close>, \<open>suffix\<close> and \<open>stem\<close> follow pathlib's
  \<^verbatim>\<open>name\<close>, \<^verbatim>\<open>suffix\<close> and \<^verbatim>\<open>stem\<close>: the suffix starts at the last dot of the final
  component, unless that dot is the first or the last character of the component.
\<close>

type_synonym path = string

definition name_of :: "path \<Rightarrow> string" where
  "name_of p = rev (takeWhile (\<lambda>c. c \<noteq> CHR ''/'') (rev p))"

definition dot_index :: "string \<Rightarrow> nat option" where
  "dot_index nm =
     (if CHR ''.'' \<notin> set nm then None
      else let i = length nm - length (takeWhile (\<lambda>c. c \<noteq> CHR ''.'') (rev nm)) - 1
           in if 0 < i \<and> i < length nm - 1 then Some i else None)"

definition suffix :: "path \<Rightarrow> string" where
  "suffix p = (case dot_index (name_of p) of None \<Rightarrow> [] | Some i \<Rightarrow> drop i (name_of p))"

definition stem :: "path \<Rightarrow> string" where
  "stem p = (case dot_index (name_of p) of None \<Rightarrow> name_of p | Some i \<Rightarrow> take i (name_of p))"

definition joinpath :: "path \<Rightarrow> string \<Rightarrow> path" where
  "joinpath d n = d @ ''/'' @ n"

definition lower_char :: "char \<Rightarrow> char" where
  "lower_char c =
     (let k = (of_char c :: nat)
      in if 65 \<le> k \<and> k \<le> 90 then char_of (k + 32) else c)"

definition lower :: "string \<Rightarrow> string" where
  "lower s = map lower_char s"

definition SUPPORTED_EXT :: "string list" where
  "SUPPORTED_EXT = [''.mp3'', ''.ogg'', ''.wav'', ''.flac'', ''.m4a'']"

definition is_m4a :: "path \<Rightarrow> bool" where
  "is_m4a p = (lower (suffix p) = ''.m4a'')"

subsection \<open>Natural sort key\<close>

text \<open>
  \<^verbatim>\<open>_natural_key(p) = [int(t) if t.isdigit() else t.lower()
                      for t in re.split(r'(\d+)', p.stem)]\<close>

  \<open>re_split_digits\<close> is the split at maximal digit runs, the runs kept: text pieces sit
  at even positions and digit runs at odd positions, and the list always ends with a
  text piece (empty when the string ends with a digit).
\<close>

definition is_digit :: "char \<Rightarrow> bool" where
  "is_digit c = (let k = (of_char c :: nat) in 48 \<le> k \<and> k \<le> 57)"

fun re_split_digits :: "string \<Rightarrow> string \<Rightarrow> bool \<Rightarrow> string list" where
  "re_split_digits [] cur in_run = (if in_run then [rev cur, []] else [rev cur])"
| "re_split_digits (c # cs) cur in_run =
     (if is_digit c = in_run then re_split_digits cs (c # cur) in_run
      else rev cur # re_split_digits cs [c] (\<not> in_run))"

datatype key_token = KInt nat | KStr string

definition int_of_digits :: "string \<Rightarrow> nat" where
  "int_of_digits t = foldl (\<lambda>acc c. 10 * acc + ((of_char c :: nat) - 48)) 0 t"

definition key_token_of :: "string \<Rightarrow> key_token" where
  "key_token_of t =
     (if t \<noteq> [] \<and> list_all is_digit t then KInt (int_of_digits t) else KStr (lower t))"

definition natural_key :: "path \<Rightarrow> key_token list" where
  "natural_key p = map key_token_of (re_split_digits (stem p) [] False)"

text \<open>
  Python compares the keys as lists: the first position where they differ decides, a
  proper prefix is smaller. Strings compare by code point. A text piece never meets a
  number (their positions alternate), so that case, a TypeError in Python, is never
  reached; the model answers \<open>False\<close> there.
\<close>

fun str_less :: "string \<Rightarrow> string \<Rightarrow> bool" where
  "str_less [] [] = False"
| "str_less [] (b # bs) = True"
| "str_less (a # as) [] = False"
| "str_less (a # as) (b # bs) =
     (if a = b then str_less as bs else (of_char a :: nat) < of_char b)"

fun token_less :: "key_token \<Rightarrow> key_token \<Rightarrow> bool" where
  "token_less (KInt a) (KInt b) = (a < b)"
| "token_less (KStr a) (KStr b) = str_less a b"
| "token_less _ _ = False"

fun key_less :: "key_token list \<Rightarrow> key_token list \<Rightarrow> bool" where
  "key_less [] [] = False"
| "key_less [] (y # ys) = True"
| "key_less (x # xs) [] = False"
| "key_less (x # xs) (y # ys) = (if x = y then key_less xs ys else token_less x y)"

text \<open>
  \<^verbatim>\<open>list.sort(key=_natural_key)\<close> is stable: an element goes behind every element that
  is not greater than it. Inserting the elements one by one, in their order, gives the
  same list.
\<close>

fun insert_natural :: "path \<Rightarrow> path list \<Rightarrow> path list" where
  "insert_natural x [] = [x]"
| "insert_natural x (y # ys) =
     (if key_less (natural_key x) (natural_key y) then x # y # ys
      else y # insert_natural x ys)"

definition sort_natural :: "path list \<Rightarrow> path list" where
  "sort_natural xs = foldl (\<lambda>acc x. insert_natural x acc) [] xs"

section \<open>The player, its collaborators and their effects\<close>

text \<open>
  A Python \<^verbatim>\<open>float\<close> (the track duration, the volume fraction) is modelled by a
  rational number; the player only stores, compares with zero and divides by 100.
\<close>

type_synonym pyfloat = rat

datatype exn = IndexError | PygameError | OSError

datatype message = InstallFfmpeg | ExceptionText exn

text \<open>
  What the player does to the outside: the calls on \<^verbatim>\<open>pygame.mixer.music\<close>, the run of
  the external transcoder, and the error dialog. A call is recorded when it is made,
  whether or not it then raises. Widget updates (labels, progress bar, icons, row
  colours) are presentation only and are left out.
\<close>

datatype effect =
    MusicLoad path
  | MusicPlay
  | MusicPause
  | MusicUnpause
  | MusicStop
  | MusicSetVolume pyfloat
  | RunFfmpeg path path
  | ShowError path message

record player =
  playlist :: "path list"
  current_index :: "int option"
  paused :: bool
  shuffle :: bool
  user_stopped :: bool
  track_duration_s :: "pyfloat option"
  elapsed_base_ms :: int
  temp_files :: "path list"
  effects :: "effect list"

text \<open>
  The process-wide constants of the libraries: the SHA-1 digest cut to 12 hex digits
  and the temporary directory (\<^verbatim>\<open>tempfile.gettempdir()\<close>, cached by Python).
\<close>

record platform =
  sha1_hex12 :: "string \<Rightarrow> string"
  gettempdir :: path

text \<open>
  What the outside answers while one handler runs: the mixer's busy flag and position
  (\<open>None\<close> when \<^verbatim>\<open>get_pos\<close> raises), whether a load or a play succeeds, where
  \<^verbatim>\<open>shutil.which\<close> finds ffmpeg, whether the cache directory can be made, whether the
  transcoder run exits with status 0, which files exist, what mutagen reads as
  duration (\<open>None\<close> also when it raises), and the random draw.
\<close>

record env =
  get_busy :: bool
  get_pos :: "int option"
  load_ok :: "path \<Rightarrow> bool"
  play_ok :: bool
  which_ffmpeg :: "path option"
  mkdir_ok :: bool
  ffmpeg_run_ok :: "path \<Rightarrow> path \<Rightarrow> bool"
  path_exists :: "path \<Rightarrow> bool"
  read_duration_seconds :: "path \<Rightarrow> pyfloat option"
  random_draw :: nat

definition emit :: "effect \<Rightarrow> player \<Rightarrow> player" where
  "emit e st = st\<lparr>effects := effects st @ [e]\<rparr>"

text \<open>
  The state after \<^verbatim>\<open>__init__\<close>: the fields as initialised, and the one mixer call of
  \<^verbatim>\<open>_build_ui\<close>, \<^verbatim>\<open>set_volume(0.8)\<close>.
\<close>

definition init_player :: player where
  "init_player =
     \<lparr>playlist = [], current_index = None, paused = False, shuffle = False,
      user_stopped = False, track_duration_s = None, elapsed_base_ms = 0,
      temp_files = [], effects = [MusicSetVolume (4 / 5)]\<rparr>"

section \<open>Shuffle selection\<close>

text \<open>
  \<^verbatim>\<open>range(n)\<close> as a list of Python ints; \<^verbatim>\<open>random.randrange(n)\<close> and
  \<^verbatim>\<open>random.choice(xs)\<close> take the draw of the environment modulo the number of
  possibilities, so every possible outcome is the outcome of some draw.
\<close>

definition py_range :: "nat \<Rightarrow> int list" where
  "py_range n = map int [0..<n]"

definition randrange :: "env \<Rightarrow> nat \<Rightarrow> int" where
  "randrange ev n = int (random_draw ev mod n)"

definition random_choice :: "env \<Rightarrow> int list \<Rightarrow> int" where
  "random_choice ev xs = xs ! (random_draw ev mod length xs)"

definition pick_shuffle_index :: "env \<Rightarrow> player \<Rightarrow> int option" where
  "pick_shuffle_index ev st =
     (let n = length (playlist st) in
      if n = 0 then None
      else case current_index st of
        None \<Rightarrow> Some (randrange ev n)
      | Some c \<Rightarrow>
          (let next_seq = (c + 1) mod int n;
               forbidden = {c, next_seq}
           in if n \<le> card forbidden then find (\<lambda>i. i \<noteq> c) (py_range n)
              else (let choices = filter (\<lambda>i. i \<notin> forbidden) (py_range n)
                    in if choices \<noteq> [] then Some (random_choice ev choices) else None)))"

section \<open>Transcode fallback\<close>

text \<open>
  \<^verbatim>\<open>if not ffmpeg\<close>: \<^verbatim>\<open>shutil.which\<close> gave \<^verbatim>\<open>None\<close> (or an empty string).
\<close>

definition ffmpeg_missing :: "env \<Rightarrow> bool" where
  "ffmpeg_missing ev = (case which_ffmpeg ev of None \<Rightarrow> True | Some f \<Rightarrow> f = [])"

definition out_path :: "platform \<Rightarrow> path \<Rightarrow> path" where
  "out_path plat src =
     joinpath (joinpath (gettempdir plat) ''mp3player_cache'')
       (stem src @ ''_'' @ sha1_hex12 plat src @ ''.wav'')"

text \<open>
  \<^verbatim>\<open>_transcode_to_wav\<close>. The \<^verbatim>\<open>mkdir\<close> stands outside the function's own \<^verbatim>\<open>try\<close>, so
  its failure leaves the function as an exception; a failed run is caught, logged
  and answered with \<^verbatim>\<open>None\<close>. The transcoder is run (with \<^verbatim>\<open>-y\<close>, overwriting) on
  every call that gets this far.
\<close>

definition transcode_to_wav ::
  "platform \<Rightarrow> env \<Rightarrow> path \<Rightarrow> player \<Rightarrow> (exn + path option) \<times> player" where
  "transcode_to_wav plat ev src st =
     (if ffmpeg_missing ev then (Inr None, st)
      else if \<not> mkdir_ok ev then (Inl OSError, st)
      else (let out = out_path plat src;
                st1 = emit (RunFfmpeg src out) st
            in if ffmpeg_run_ok ev src out \<and> path_exists ev out
               then (Inr (Some out), st1\<lparr>temp_files := temp_files st1 @ [out]\<rparr>)
               else (Inr None, st1)))"

definition ensure_playable_path ::
  "platform \<Rightarrow> env \<Rightarrow> path \<Rightarrow> player \<Rightarrow> (exn + path) \<times> player" where
  "ensure_playable_path plat ev p st =
     (if \<not> is_m4a p then (Inr p, st)
      else (let st1 = emit (MusicLoad p) st
            in if load_ok ev p then (Inr p, st1)
               else (case transcode_to_wav plat ev p st1 of
                       (Inl e, st2) \<Rightarrow> (Inl e, st2)
                     | (Inr (Some wav), st2) \<Rightarrow> (Inr wav, st2)
                     | (Inr None, st2) \<Rightarrow> (Inr p, st2))))"

section \<open>Playback\<close>

text \<open>Python list indexing: a negative index counts from the end.\<close>

definition py_index :: "'a list \<Rightarrow> int \<Rightarrow> exn + 'a" where
  "py_index xs i =
     (if 0 \<le> i \<and> i < int (length xs) then Inr (xs ! nat i)
      else if - int (length xs) \<le> i \<and> i < 0 then Inr (xs ! nat (int (length xs) + i))
      else Inl IndexError)"

text \<open>
  The first three statements of the \<^verbatim>\<open>try\<close> block of \<^verbatim>\<open>_start_play\<close>: resolve the
  playable path, load it, play. The answer is the exception that left the block, if
  any, and the state with the effects made until then.
\<close>

definition load_and_play :: "platform \<Rightarrow> env \<Rightarrow> path \<Rightarrow> player \<Rightarrow> exn option \<times> player" where
  "load_and_play plat ev orig st =
     (case ensure_playable_path plat ev orig st of
        (Inl e, st1) \<Rightarrow> (Some e, st1)
      | (Inr path_for_play, st1) \<Rightarrow>
          (let st2 = emit (MusicLoad path_for_play) st1
           in if \<not> load_ok ev path_for_play then (Some PygameError, st2)
              else (let st3 = emit MusicPlay st2
                    in if \<not> play_ok ev then (Some PygameError, st3) else (None, st3))))"

text \<open>
  \<^verbatim>\<open>_start_play\<close>. The index is read before the \<^verbatim>\<open>try\<close>: an IndexError leaves the
  handler. Every exception of the block is caught and shown in the error dialog.
\<close>

definition start_play :: "platform \<Rightarrow> env \<Rightarrow> int \<Rightarrow> player \<Rightarrow> exn + player" where
  "start_play plat ev index st =
     (if playlist st = [] then Inr st
      else (case py_index (playlist st) index of
              Inl e \<Rightarrow> Inl e
            | Inr orig_path \<Rightarrow>
                (case load_and_play plat ev orig_path st of
                   (None, st1) \<Rightarrow>
                     Inr (st1\<lparr>current_index := Some index, user_stopped := False,
                              paused := False, elapsed_base_ms := 0,
                              track_duration_s := read_duration_seconds ev orig_path\<rparr>)
                 | (Some e, st1) \<Rightarrow>
                     Inr (emit (ShowError orig_path
                            (if is_m4a orig_path \<and> ffmpeg_missing ev then InstallFfmpeg
                             else ExceptionText e)) st1))))"

definition play_pause :: "platform \<Rightarrow> env \<Rightarrow> player \<Rightarrow> exn + player" where
  "play_pause plat ev st =
     (if current_index st = None \<and> playlist st \<noteq> [] then start_play plat ev 0 st
      else if get_busy ev \<and> \<not> paused st then
        (let cur = (case get_pos ev of None \<Rightarrow> 0 | Some p \<Rightarrow> max 0 p)
         in Inr ((emit MusicPause (st\<lparr>elapsed_base_ms := elapsed_base_ms st + cur\<rparr>))
                  \<lparr>paused := True\<rparr>))
      else if current_index st \<noteq> None then Inr ((emit MusicUnpause st)\<lparr>paused := False\<rparr>)
      else Inr st)"

definition prev_track :: "platform \<Rightarrow> env \<Rightarrow> player \<Rightarrow> exn + player" where
  "prev_track plat ev st =
     (if playlist st = [] then Inr st
      else start_play plat ev
             (case current_index st of
                Some c \<Rightarrow> (c - 1) mod int (length (playlist st))
              | None \<Rightarrow> 0) st)"

definition next_track :: "platform \<Rightarrow> env \<Rightarrow> player \<Rightarrow> exn + player" where
  "next_track plat ev st =
     (if playlist st = [] then Inr st
      else if shuffle st then
        (case pick_shuffle_index ev st of
           None \<Rightarrow> Inr st
         | Some idx \<Rightarrow> start_play plat ev idx st)
      else start_play plat ev
             (case current_index st of
                Some c \<Rightarrow> (c + 1) mod int (length (playlist st))
              | None \<Rightarrow> 0) st)"

definition toggle_shuffle :: "player \<Rightarrow> player" where
  "toggle_shuffle st = st\<lparr>shuffle := \<not> shuffle st\<rparr>"

text \<open>
  \<^verbatim>\<open>_on_volume\<close>: the value goes to the mixer divided by 100, as it is. An exception of
  the mixer is swallowed and changes nothing of the player.
\<close>

definition on_volume :: "pyfloat \<Rightarrow> player \<Rightarrow> player" where
  "on_volume val st = emit (MusicSetVolume (val / 100)) st"

text \<open>
  \<^verbatim>\<open>_halt_playback\<close>: the flag is set before the mixer is called, and an exception of
  \<^verbatim>\<open>stop\<close> is swallowed, so both ways end in the same state.
\<close>

definition halt_playback :: "player \<Rightarrow> player" where
  "halt_playback st =
     (emit MusicStop (st\<lparr>user_stopped := True\<rparr>))\<lparr>paused := False, elapsed_base_ms := 0\<rparr>"

definition clear_playlist :: "player \<Rightarrow> player" where
  "clear_playlist st = (halt_playback st)\<lparr>current_index := None, playlist := []\<rparr>"

definition supported :: "path \<Rightarrow> bool" where
  "supported p = (lower (suffix p) \<in> set SUPPORTED_EXT)"

definition load_playlist_paths :: "env \<Rightarrow> path list \<Rightarrow> player \<Rightarrow> player" where
  "load_playlist_paths ev paths st =
     (halt_playback st)
       \<lparr>current_index := None,
        playlist := sort_natural (filter (\<lambda>p. path_exists ev p \<and> supported p) paths)\<rparr>"

text \<open>
  \<^verbatim>\<open>add_files\<close>, after the file dialog has answered \<open>paths\<close>: the new supported files
  are appended, each once, and the playlist is sorted again.
\<close>

fun append_new :: "path list \<Rightarrow> path list \<Rightarrow> path list" where
  "append_new [] pl = pl"
| "append_new (p # ps) pl =
     (if supported p \<and> p \<notin> set pl then append_new ps (pl @ [p]) else append_new ps pl)"

definition add_files :: "path list \<Rightarrow> player \<Rightarrow> player" where
  "add_files paths st =
     (if paths = [] then st
      else st\<lparr>playlist := sort_natural (append_new paths (playlist st))\<rparr>)"

text \<open>
  \<^verbatim>\<open>add_folder\<close>, after a folder has been chosen and \<^verbatim>\<open>os.walk\<close> has listed the files
  \<open>walked\<close> below it: the same append and sort. The saved playlists it also writes are
  not part of the player.
\<close>

definition add_folder :: "path list \<Rightarrow> player \<Rightarrow> player" where
  "add_folder walked st = st\<lparr>playlist := sort_natural (append_new walked (playlist st))\<rparr>"

text \<open>
  \<^verbatim>\<open>_poll_playback\<close>, run every 200 ms: the progress display, then the auto-advance.
  Only the auto-advance touches the player.
\<close>

definition poll_playback :: "platform \<Rightarrow> env \<Rightarrow> player \<Rightarrow> exn + player" where
  "poll_playback plat ev st =
     (if \<not> get_busy ev \<and> \<not> paused st \<and> \<not> user_stopped st \<and> current_index st \<noteq> None
      then next_track plat ev st
      else Inr st)"

section \<open>The handlers as a transition system\<close>

datatype op =
    Start int
  | PlayPause
  | Prev
  | Next
  | ToggleShuffle
  | SetVolume pyfloat
  | Halt
  | LoadPlaylist "path list"
  | ClearPlaylist
  | AddFiles "path list"
  | AddFolder "path list"
  | Tick

fun step :: "platform \<Rightarrow> env \<Rightarrow> op \<Rightarrow> player \<Rightarrow> exn + player" where
  "step plat ev (Start i) st = start_play plat ev i st"
| "step plat ev PlayPause st = play_pause plat ev st"
| "step plat ev Prev st = prev_track plat ev st"
| "step plat ev Next st = next_track plat ev st"
| "step plat ev ToggleShuffle st = Inr (toggle_shuffle st)"
| "step plat ev (SetVolume v) st = Inr (on_volume v st)"
| "step plat ev Halt st = Inr (halt_playback st)"
| "step plat ev (LoadPlaylist ps) st = Inr (load_playlist_paths ev ps st)"
| "step plat ev ClearPlaylist st = Inr (clear_playlist st)"
| "step plat ev (AddFiles ps) st = Inr (add_files ps st)"
| "step plat ev (AddFolder ps) st = Inr (add_folder ps st)"
| "step plat ev Tick st = poll_playback plat ev st"

text \<open>
  An exception that leaves a handler is reported by the event loop, which goes on
  with the state as the handler left it; the only such exception, the IndexError of
  \<^verbatim>\<open>_start_play\<close>, is raised before anything is changed.
\<close>

definition run_op :: "platform \<Rightarrow> env \<Rightarrow> op \<Rightarrow> player \<Rightarrow> player" where
  "run_op plat ev x st = (case step plat ev x st of Inl e \<Rightarrow> st | Inr st' \<Rightarrow> st')"

fun run_ops :: "platform \<Rightarrow> (env \<times> op) list \<Rightarrow> player \<Rightarrow> player" where
  "run_ops plat [] st = st"
| "run_ops plat ((ev, x) # rest) st = run_ops plat rest (run_op plat ev x st)"

text \<open>
  The rows of the list are rebuilt after every change of the playlist, so a
  double-click starts an index of the playlist as it is; every other handler is
  always enabled.
\<close>

fun enabled :: "op \<Rightarrow> player \<Rightarrow> bool" where
  "enabled (Start i) st = (0 \<le> i \<and> i < int (length (playlist st)))"
| "enabled _ st = True"

inductive reachable :: "platform \<Rightarrow> player \<Rightarrow> bool" for plat :: platform where
  reachable_init: "reachable plat init_player"
| reachable_step: "reachable plat st \<Longrightarrow> enabled x st \<Longrightarrow> reachable plat (run_op plat ev x st)"

definition index_ok :: "player \<Rightarrow> bool" where
  "index_ok st =
     (case current_index st of
        None \<Rightarrow> True
      | Some i \<Rightarrow> 0 \<le> i \<and> i < int (length (playlist st)))"

section \<open>Vocabulary of the properties\<close>

text \<open>
  The fields of the player that are not bookkeeping of effects and temporary files.
\<close>

definition engine_state ::
  "player \<Rightarrow> path list \<times> int option \<times> bool \<times> bool \<times> bool \<times> pyfloat option \<times> int" where
  "engine_state st =
     (playlist st, current_index st, paused st, shuffle st, user_stopped st,
      track_duration_s st, elapsed_base_ms st)"

text \<open>
  The two outcomes of a call of \<^verbatim>\<open>_start_play\<close> that returns: the attempt failed
  (nothing but effects and temporary files changed, and the error dialog was the last
  effect, unless the playlist was empty and nothing happened at all), or the track
  at index \<open>i\<close> was started.
\<close>

definition start_failed :: "player \<Rightarrow> player \<Rightarrow> bool" where
  "start_failed st st' \<longleftrightarrow>
     engine_state st' = engine_state st \<and>
     (st' = st \<or> (\<exists>p m. effects st' \<noteq> [] \<and> last (effects st') = ShowError p m))"

definition start_succeeded :: "int \<Rightarrow> player \<Rightarrow> player \<Rightarrow> bool" where
  "start_succeeded i st st' \<longleftrightarrow>
     playlist st' = playlist st \<and> shuffle st' = shuffle st \<and>
     current_index st' = Some i \<and> elapsed_base_ms st' = 0 \<and> \<not> paused st' \<and>
     \<not> user_stopped st' \<and> effects st' \<noteq> [] \<and> last (effects st') = MusicPlay"

text \<open>The two other branches of \<^verbatim>\<open>play_pause\<close>.\<close>

definition pause_now :: "int \<Rightarrow> player \<Rightarrow> player" where
  "pause_now cur st =
     (emit MusicPause (st\<lparr>elapsed_base_ms := elapsed_base_ms st + cur\<rparr>))\<lparr>paused := True\<rparr>"

definition resume_now :: "player \<Rightarrow> player" where
  "resume_now st = (emit MusicUnpause st)\<lparr>paused := False\<rparr>"

text \<open>All handlers of a run are enabled when their turn comes.\<close>

fun run_enabled :: "platform \<Rightarrow> (env \<times> op) list \<Rightarrow> player \<Rightarrow> bool" where
  "run_enabled plat [] st = True"
| "run_enabled plat ((ev, x) # rest) st =
     (enabled x st \<and> run_enabled plat rest (run_op plat ev x st))"

text \<open>
  How often the transcoder has been run, and two calls of \<^verbatim>\<open>_ensure_playable_path\<close>
  in a row on the same source, the outside answering alike both times.
\<close>

fun is_ffmpeg_run :: "effect \<Rightarrow> bool" where
  "is_ffmpeg_run (RunFfmpeg src out) = True"
| "is_ffmpeg_run _ = False"

definition ffmpeg_runs :: "player \<Rightarrow> nat" where
  "ffmpeg_runs st = length (filter is_ffmpeg_run (effects st))"

definition resolve_twice ::
  "platform \<Rightarrow> env \<Rightarrow> path \<Rightarrow> player \<Rightarrow> (exn + path) \<times> (exn + path) \<times> player" where
  "resolve_twice plat ev p st =
     (case ensure_playable_path plat ev p st of
        (r1, st1) \<Rightarrow> (case ensure_playable_path plat ev p st1 of
                        (r2, st2) \<Rightarrow> (r1, r2, st2)))"


section \<open>Example configurations\<close>

definition demo_platform :: platform where
  "demo_platform = \<lparr>sha1_hex12 = (\<lambda>s. ''0123456789ab''), gettempdir = ''/tmp''\<rparr>"

text \<open>
  A mixer that cannot decode m4a, with ffmpeg installed and working; the mixer is
  idle (not busy).
\<close>

definition quiet_env :: env where
  "quiet_env =
     \<lparr>get_busy = False, get_pos = Some 0, load_ok = (\<lambda>p. \<not> is_m4a p), play_ok = True,
      which_ffmpeg = Some ''/usr/bin/ffmpeg'', mkdir_ok = True,
      ffmpeg_run_ok = (\<lambda>src out. True), path_exists = (\<lambda>p. True),
      read_duration_seconds = (\<lambda>p. None), random_draw = 7\<rparr>"

definition demo_files :: "path list" where
  "demo_files = [''/m/a.mp3'', ''/m/b.m4a'', ''/m/c.mp3'']"

definition busy_env :: env where
  "busy_env = quiet_env\<lparr>get_busy := True, get_pos := Some 1500\<rparr>"

definition no_ffmpeg_env :: env where
  "no_ffmpeg_env = quiet_env\<lparr>which_ffmpeg := None\<rparr>"

text \<open>A mixer, idle as well, on which every load raises.\<close>

definition deaf_env :: env where
  "deaf_env = quiet_env\<lparr>load_ok := (\<lambda>p. False)\<rparr>"

text \<open>Five tracks, the third one playing, shuffle switched on.\<close>

definition five_tracks :: player where
  "five_tracks =
     run_ops demo_platform
       [(quiet_env,
         AddFiles [''/m/a.mp3'', ''/m/b.mp3'', ''/m/c.mp3'', ''/m/d.mp3'', ''/m/e.mp3'']),
        (quiet_env, Start 2), (quiet_env, ToggleShuffle)]
       init_player"

text \<open>
  Three tracks, the second one an m4a file: loaded and idle; the first one playing;
  the first one paused after 1500 ms.
\<close>

definition idle_player :: player where
  "idle_player = run_ops demo_platform [(quiet_env, AddFiles demo_files)] init_player"

definition playing_player :: player where
  "playing_player =
     run_ops demo_platform [(quiet_env, AddFiles demo_files), (quiet_env, Start 0)] init_player"

definition paused_player :: player where
  "paused_player =
     run_ops demo_platform
       [(quiet_env, AddFiles demo_files), (quiet_env, Start 0), (busy_env, PlayPause)]
       init_player"

text \<open>A playlist of one track, playing.\<close>

definition single_player :: player where
  "single_player =
     run_ops demo_platform
       [(quiet_env, AddFiles [''/m/a.mp3'']), (quiet_env, Start 0)] init_player"

section \<open>Shuffle never repeats and never follows the sequence\<close>

lemma set_py_range: "set (py_range n) = {i. 0 \<le> i \<and> i < int n}"
proof -
  have "set (py_range n) = int ` {0..<n}"
    by (simp add: py_range_def)
  also have "\<dots> = {i. 0 \<le> i \<and> i < int n}"
  proof (rule set_eqI)
    fix i :: int
    show "i \<in> int ` {0..<n} \<longleftrightarrow> i \<in> {i. 0 \<le> i \<and> i < int n}"
    proof
      assume "i \<in> int ` {0..<n}"
      then show "i \<in> {i. 0 \<le> i \<and> i < int n}" by auto
    next
      assume "i \<in> {i. 0 \<le> i \<and> i < int n}"
      then have "nat i \<in> {0..<n}" and "int (nat i) = i" by auto
      then show "i \<in> int ` {0..<n}" by (metis imageI)
    qed
  qed
  finally show ?thesis .
qed

lemma random_choice_mem: "xs \<noteq> [] \<Longrightarrow> random_choice ev xs \<in> set xs"
  by (simp add: random_choice_def)

lemma three_not_in_two:
  fixes a b :: int
  shows "\<exists>j. (j = 0 \<or> j = 1 \<or> j = 2) \<and> j \<noteq> a \<and> j \<noteq> b"
  by presburger

text \<open>
  C1. With at least three tracks and an active track \<open>c\<close> inside the playlist, the
  shuffle selector returns, whatever the random draw, an index of the playlist that
  is neither \<open>c\<close> nor the sequential successor \<open>(c + 1) mod n\<close>.
\<close>

theorem pick_shuffle_index_avoids_current_and_next:
  assumes n3: "3 \<le> length (playlist st)"
    and cur: "current_index st = Some c"
    and c0: "0 \<le> c"
    and cn: "c < int (length (playlist st))"
  shows "\<exists>i. pick_shuffle_index ev st = Some i \<and> 0 \<le> i \<and> i < int (length (playlist st))
              \<and> i \<noteq> c \<and> i \<noteq> (c + 1) mod int (length (playlist st))"
proof -
  define n where "n = length (playlist st)"
  define next_seq where "next_seq = (c + 1) mod int n"
  define choices where "choices = filter (\<lambda>i. i \<noteq> c \<and> i \<noteq> next_seq) (py_range n)"
  have card2: "card {c, next_seq} \<le> 2"
    by (simp add: card_insert_if)
  obtain j where j: "j = 0 \<or> j = 1 \<or> j = 2" "j \<noteq> c" "j \<noteq> next_seq"
    using three_not_in_two by blast
  from j(1) n3 have "j \<in> set (py_range n)"
    unfolding set_py_range n_def by auto
  with j have "j \<in> set choices"
    by (simp add: choices_def)
  then have ne: "choices \<noteq> []" by auto
  have pick: "pick_shuffle_index ev st = Some (random_choice ev choices)"
    using n3 cur card2 ne
    by (simp add: pick_shuffle_index_def Let_def n_def [symmetric] next_seq_def [symmetric]
        choices_def [symmetric])
  from random_choice_mem [OF ne] have "random_choice ev choices \<in> set choices" .
  then have "0 \<le> random_choice ev choices" "random_choice ev choices < int n"
    "random_choice ev choices \<noteq> c" "random_choice ev choices \<noteq> next_seq"
    by (auto simp: choices_def set_py_range)
  with pick show ?thesis
    by (simp add: n_def next_seq_def)
qed

theorem pick_shuffle_index_avoids_current_and_next_witness:
  "(3::nat) \<le> length (playlist five_tracks) \<and> current_index five_tracks = Some 2
   \<and> pick_shuffle_index quiet_env five_tracks = Some 1
   \<and> (2 + 1) mod int (length (playlist five_tracks)) = 3"
proof -
  have a: "3 \<le> length (playlist five_tracks)" "current_index five_tracks = Some 2"
    "2 < int (length (playlist five_tracks))"
    by code_simp+
  have b: "pick_shuffle_index quiet_env five_tracks = Some 1" by code_simp
  have c: "(2 + 1) mod int (length (playlist five_tracks)) = 3" by code_simp
  from pick_shuffle_index_avoids_current_and_next [OF a(1) a(2) _ a(3), of quiet_env] a b c
  show ?thesis by simp
qed

section \<open>What a start can do\<close>

lemma engine_state_emit: "engine_state (emit e st) = engine_state st"
  by (simp add: engine_state_def emit_def)

lemma transcode_engine:
  "engine_state (snd (transcode_to_wav plat ev src st)) = engine_state st"
  by (simp add: transcode_to_wav_def Let_def engine_state_def emit_def)

lemma ensure_engine:
  "engine_state (snd (ensure_playable_path plat ev p st)) = engine_state st"
proof (cases "is_m4a p \<and> \<not> load_ok ev p")
  case False
  then show ?thesis
    by (auto simp: ensure_playable_path_def Let_def engine_state_emit)
next
  case True
  obtain r st2 where t: "transcode_to_wav plat ev p (emit (MusicLoad p) st) = (r, st2)"
    by (cases "transcode_to_wav plat ev p (emit (MusicLoad p) st)")
  have "engine_state st2 = engine_state (emit (MusicLoad p) st)"
    using transcode_engine [of plat ev p "emit (MusicLoad p) st"] t by simp
  then have "engine_state st2 = engine_state st"
    by (simp add: engine_state_emit)
  with True t show ?thesis
    by (simp add: ensure_playable_path_def Let_def split: sum.splits option.splits)
qed

lemma load_and_play_engine:
  "engine_state (snd (load_and_play plat ev p st)) = engine_state st"
proof -
  obtain r st1 where e: "ensure_playable_path plat ev p st = (r, st1)"
    by (cases "ensure_playable_path plat ev p st")
  have "engine_state st1 = engine_state st"
    using ensure_engine [of plat ev p st] e by simp
  with e show ?thesis
    by (simp add: load_and_play_def Let_def engine_state_emit split: sum.splits)
qed

lemma load_and_play_success_effects:
  assumes "load_and_play plat ev p st = (None, st1)"
  shows "effects st1 \<noteq> [] \<and> last (effects st1) = MusicPlay"
proof -
  obtain r st0 where e: "ensure_playable_path plat ev p st = (r, st0)"
    by (cases "ensure_playable_path plat ev p st")
  with assms show ?thesis
    by (auto simp: load_and_play_def Let_def emit_def split: sum.splits if_splits)
qed

lemma py_index_valid:
  "0 \<le> i \<Longrightarrow> i < int (length xs) \<Longrightarrow> py_index xs i = Inr (xs ! nat i)"
  by (simp add: py_index_def)

lemma start_play_success:
  assumes "0 \<le> i" "i < int (length (playlist st))"
    and "load_and_play plat ev (playlist st ! nat i) st = (None, st1)"
  shows "start_play plat ev i st =
           Inr (st1\<lparr>current_index := Some i, user_stopped := False, paused := False,
                    elapsed_base_ms := 0,
                    track_duration_s := read_duration_seconds ev (playlist st ! nat i)\<rparr>)"
proof -
  from assms(1,2) have "playlist st \<noteq> []" by auto
  with assms show ?thesis
    by (simp add: start_play_def py_index_valid)
qed

lemma start_play_failure:
  assumes "0 \<le> i" "i < int (length (playlist st))"
    and "load_and_play plat ev (playlist st ! nat i) st = (Some e, st1)"
  shows "start_play plat ev i st =
           Inr (emit (ShowError (playlist st ! nat i)
                  (if is_m4a (playlist st ! nat i) \<and> ffmpeg_missing ev then InstallFfmpeg
                   else ExceptionText e)) st1)"
proof -
  from assms(1,2) have "playlist st \<noteq> []" by auto
  with assms show ?thesis
    by (simp add: start_play_def py_index_valid)
qed

lemma engine_state_fields:
  assumes "engine_state st1 = engine_state st"
  shows "playlist st1 = playlist st" "current_index st1 = current_index st"
    "paused st1 = paused st" "shuffle st1 = shuffle st" "user_stopped st1 = user_stopped st"
    "track_duration_s st1 = track_duration_s st" "elapsed_base_ms st1 = elapsed_base_ms st"
  using assms by (simp_all add: engine_state_def)

lemma start_play_result:
  assumes "start_play plat ev i st = Inr st'"
  shows "start_failed st st' \<or> start_succeeded i st st'"
proof (cases "playlist st = []")
  case True
  with assms have "st' = st" by (simp add: start_play_def)
  then show ?thesis by (simp add: start_failed_def)
next
  case False
  from assms False obtain orig where o: "py_index (playlist st) i = Inr orig"
    by (cases "py_index (playlist st) i") (simp_all add: start_play_def)
  obtain r st1 where l: "load_and_play plat ev orig st = (r, st1)"
    by (cases "load_and_play plat ev orig st")
  have eng: "engine_state st1 = engine_state st"
    using load_and_play_engine [of plat ev orig st] l by simp
  note f = engine_state_fields [OF eng]
  show ?thesis
  proof (cases r)
    case None
    with l have eff: "effects st1 \<noteq> [] \<and> last (effects st1) = MusicPlay"
      using load_and_play_success_effects by blast
    from assms False o l None
    have st': "st' = st1\<lparr>current_index := Some i, user_stopped := False, paused := False,
                    elapsed_base_ms := 0,
                    track_duration_s := read_duration_seconds ev orig\<rparr>"
      by (simp add: start_play_def)
    have "start_succeeded i st st'"
      unfolding start_succeeded_def st' using eff f by simp
    then show ?thesis ..
  next
    case (Some e)
    define m where
      "m = (if is_m4a orig \<and> ffmpeg_missing ev then InstallFfmpeg else ExceptionText e)"
    from assms False o l Some
    have st': "st' = emit (ShowError orig m) st1"
      by (simp add: start_play_def m_def)
    have "engine_state st' = engine_state st"
      unfolding st' using eng by (simp add: engine_state_emit)
    moreover have "effects st' \<noteq> [] \<and> last (effects st') = ShowError orig m"
      unfolding st' by (simp add: emit_def)
    ultimately have "start_failed st st'"
      unfolding start_failed_def by blast
    then show ?thesis ..
  qed
qed

lemma start_play_valid_returns:
  assumes "0 \<le> i" "i < int (length (playlist st))"
  shows "\<exists>st'. start_play plat ev i st = Inr st'"
proof -
  obtain r st1 where l: "load_and_play plat ev (playlist st ! nat i) st = (r, st1)"
    by (cases "load_and_play plat ev (playlist st ! nat i) st")
  show ?thesis
  proof (cases r)
    case None
    with l start_play_success [OF assms] show ?thesis by blast
  next
    case (Some e)
    with l start_play_failure [OF assms] show ?thesis by blast
  qed
qed

lemma start_play_raises_index_error:
  "start_play plat ev i st = Inl e \<Longrightarrow> e = IndexError"
  by (auto simp: start_play_def py_index_def split: sum.splits if_splits prod.splits option.splits)

section \<open>The handlers, case by case\<close>

lemma find_py_range:
  "find P (py_range n) = Some i \<Longrightarrow> 0 \<le> i \<and> i < int n"
proof -
  assume "find P (py_range n) = Some i"
  then have "i \<in> set (py_range n)"
    by (auto simp: find_Some_iff)
  then show ?thesis by (simp add: set_py_range)
qed

lemma pick_shuffle_index_in_range:
  assumes "pick_shuffle_index ev st = Some i"
  shows "0 \<le> i \<and> i < int (length (playlist st))"
proof (cases "current_index st")
  case None
  with assms show ?thesis
    by (auto simp: pick_shuffle_index_def Let_def randrange_def split: if_splits)
next
  case (Some c)
  define n where "n = length (playlist st)"
  define choices where
    "choices = filter (\<lambda>i. i \<noteq> c \<and> i \<noteq> (c + 1) mod int n) (py_range n)"
  from assms Some
  have "find (\<lambda>i. i \<noteq> c) (py_range n) = Some i \<or> (choices \<noteq> [] \<and> i = random_choice ev choices)"
    by (auto simp: pick_shuffle_index_def Let_def n_def choices_def split: if_splits)
  then show ?thesis
  proof
    assume "find (\<lambda>i. i \<noteq> c) (py_range n) = Some i"
    then show ?thesis unfolding n_def by (rule find_py_range)
  next
    assume a: "choices \<noteq> [] \<and> i = random_choice ev choices"
    then have "i \<in> set choices" by (simp add: random_choice_mem)
    then have "i \<in> set (py_range n)" by (simp add: choices_def)
    then show ?thesis by (simp add: set_py_range n_def)
  qed
qed

lemma next_track_cases:
  "next_track plat ev st = Inr st \<or>
   (\<exists>i. 0 \<le> i \<and> i < int (length (playlist st)) \<and> next_track plat ev st = start_play plat ev i st)"
proof (cases "playlist st = []")
  case True
  then show ?thesis by (simp add: next_track_def)
next
  case ne: False
  then have n0: "0 < int (length (playlist st))" by simp
  show ?thesis
  proof (cases "shuffle st")
    case True
    show ?thesis
    proof (cases "pick_shuffle_index ev st")
      case None
      with ne True show ?thesis by (simp add: next_track_def)
    next
      case (Some i)
      with ne True have "next_track plat ev st = start_play plat ev i st"
        by (simp add: next_track_def)
      with pick_shuffle_index_in_range [OF Some] show ?thesis by blast
    qed
  next
    case False
    define i where
      "i = (case current_index st of Some c \<Rightarrow> (c + 1) mod int (length (playlist st)) | None \<Rightarrow> 0)"
    have "0 \<le> i \<and> i < int (length (playlist st))"
      using n0 by (simp add: i_def split: option.splits)
    moreover from ne False have "next_track plat ev st = start_play plat ev i st"
      by (simp add: next_track_def i_def)
    ultimately show ?thesis by blast
  qed
qed

lemma prev_track_cases:
  "prev_track plat ev st = Inr st \<or>
   (\<exists>i. 0 \<le> i \<and> i < int (length (playlist st)) \<and> prev_track plat ev st = start_play plat ev i st)"
proof (cases "playlist st = []")
  case True
  then show ?thesis by (simp add: prev_track_def)
next
  case ne: False
  then have n0: "0 < int (length (playlist st))" by simp
  define i where
    "i = (case current_index st of Some c \<Rightarrow> (c - 1) mod int (length (playlist st)) | None \<Rightarrow> 0)"
  have "0 \<le> i \<and> i < int (length (playlist st))"
    using n0 by (simp add: i_def split: option.splits)
  moreover from ne have "prev_track plat ev st = start_play plat ev i st"
    by (simp add: prev_track_def i_def)
  ultimately show ?thesis by blast
qed

lemma poll_playback_cases:
  "poll_playback plat ev st = Inr st \<or>
   (\<exists>i. 0 \<le> i \<and> i < int (length (playlist st)) \<and> poll_playback plat ev st = start_play plat ev i st)"
  using next_track_cases [of plat ev st] by (simp add: poll_playback_def)

lemma next_track_never_raises: "\<exists>st'. next_track plat ev st = Inr st'"
  using next_track_cases [of plat ev st] start_play_valid_returns by metis

lemma poll_playback_never_raises: "\<exists>st'. poll_playback plat ev st = Inr st'"
  using next_track_never_raises [of plat ev st] by (simp add: poll_playback_def)

lemma play_pause_cases:
  "play_pause plat ev st = Inr st
   \<or> (playlist st \<noteq> [] \<and> play_pause plat ev st = start_play plat ev 0 st)
   \<or> (\<exists>cur. 0 \<le> cur \<and> play_pause plat ev st = Inr (pause_now cur st))
   \<or> (current_index st \<noteq> None \<and> play_pause plat ev st = Inr (resume_now st))"
proof (cases "current_index st = None \<and> playlist st \<noteq> []")
  case True
  then show ?thesis by (simp add: play_pause_def)
next
  case idle: False
  show ?thesis
  proof (cases "get_busy ev \<and> \<not> paused st")
    case True
    define cur where "cur = (case get_pos ev of None \<Rightarrow> 0 | Some p \<Rightarrow> max 0 p)"
    have "0 \<le> cur" by (simp add: cur_def split: option.splits)
    moreover have "play_pause plat ev st = Inr (pause_now cur st)"
      unfolding play_pause_def pause_now_def cur_def Let_def
      by (simp only: idle True if_False if_True simp_thms)
    ultimately show ?thesis by blast
  next
    case False
    have "play_pause plat ev st =
            (if current_index st \<noteq> None then Inr (resume_now st) else Inr st)"
      unfolding play_pause_def resume_now_def Let_def
      by (simp only: idle False if_False if_True simp_thms)
    then show ?thesis by (cases "current_index st = None") simp_all
  qed
qed

lemma run_op_via_start:
  assumes "step plat ev x st = Inr st \<or>
      (\<exists>i. 0 \<le> i \<and> i < int (length (playlist st)) \<and> step plat ev x st = start_play plat ev i st)"
  shows "run_op plat ev x st = st \<or> start_failed st (run_op plat ev x st)
       \<or> (\<exists>i. 0 \<le> i \<and> i < int (length (playlist st)) \<and> start_succeeded i st (run_op plat ev x st))"
  using assms
proof
  assume "step plat ev x st = Inr st"
  then show ?thesis by (simp add: run_op_def)
next
  assume "\<exists>i. 0 \<le> i \<and> i < int (length (playlist st)) \<and> step plat ev x st = start_play plat ev i st"
  then obtain i where i: "0 \<le> i" "i < int (length (playlist st))"
    "step plat ev x st = start_play plat ev i st" by blast
  from start_play_valid_returns [OF i(1,2)] obtain st' where
    s: "start_play plat ev i st = Inr st'" by blast
  with i(3) have r: "run_op plat ev x st = st'" by (simp add: run_op_def)
  from start_play_result [OF s] r i(1,2) show ?thesis by blast
qed

text \<open>The ways one handler run can change the player.\<close>

lemma run_op_shape:
  assumes en: "enabled x st"
  obtains (same) "run_op plat ev x st = st"
  | (failed) "start_failed st (run_op plat ev x st)"
  | (started) i where "0 \<le> i" "i < int (length (playlist st))"
      "start_succeeded i st (run_op plat ev x st)"
  | (paused) cur where "x = PlayPause" "0 \<le> cur" "run_op plat ev x st = pause_now cur st"
  | (resumed) "x = PlayPause" "current_index st \<noteq> None" "run_op plat ev x st = resume_now st"
  | (toggled) "x = ToggleShuffle" "run_op plat ev x st = toggle_shuffle st"
  | (volume) v where "x = SetVolume v" "run_op plat ev x st = on_volume v st"
  | (halted) "x = Halt" "run_op plat ev x st = halt_playback st"
  | (loaded) ps where "x = LoadPlaylist ps" "run_op plat ev x st = load_playlist_paths ev ps st"
  | (cleared) "x = ClearPlaylist" "run_op plat ev x st = clear_playlist st"
  | (added) ps where "x = AddFiles ps" "run_op plat ev x st = add_files ps st"
  | (walked) ps where "x = AddFolder ps" "run_op plat ev x st = add_folder ps st"
proof (cases x)
  case (Start i)
  with en have "\<exists>j. 0 \<le> j \<and> j < int (length (playlist st)) \<and> step plat ev x st = start_play plat ev j st"
    by auto
  then show ?thesis using run_op_via_start [of plat ev x st] same failed started by blast
next
  case PlayPause
  from play_pause_cases [of plat ev st]
  consider "step plat ev x st = Inr st \<or>
      (\<exists>i. 0 \<le> i \<and> i < int (length (playlist st)) \<and> step plat ev x st = start_play plat ev i st)"
    | cur where "0 \<le> cur" "play_pause plat ev st = Inr (pause_now cur st)"
    | "current_index st \<noteq> None" "play_pause plat ev st = Inr (resume_now st)"
  proof (elim disjE conjE exE, goal_cases)
    case 1
    then show ?case using PlayPause by simp
  next
    case 2
    have "0 \<le> (0::int) \<and> 0 < int (length (playlist st))" using 2(4) by simp
    with 2 PlayPause show ?case by (metis step.simps(2))
  next
    case 3
    then show ?case by blast
  next
    case 4
    then show ?case by blast
  qed
  then show ?thesis
  proof cases
    case 1
    then show ?thesis using run_op_via_start [of plat ev x st] same failed started by blast
  next
    case 2
    with PlayPause have "run_op plat ev x st = pause_now cur st" by (simp add: run_op_def)
    with 2 PlayPause show ?thesis using paused by blast
  next
    case 3
    with PlayPause have "run_op plat ev x st = resume_now st" by (simp add: run_op_def)
    with 3 PlayPause show ?thesis using resumed by blast
  qed
next
  case Prev
  with prev_track_cases [of plat ev st] have
    "step plat ev x st = Inr st \<or>
      (\<exists>i. 0 \<le> i \<and> i < int (length (playlist st)) \<and> step plat ev x st = start_play plat ev i st)"
    by simp
  then show ?thesis using run_op_via_start [of plat ev x st] same failed started by blast
next
  case Next
  with next_track_cases [of plat ev st] have
    "step plat ev x st = Inr st \<or>
      (\<exists>i. 0 \<le> i \<and> i < int (length (playlist st)) \<and> step plat ev x st = start_play plat ev i st)"
    by simp
  then show ?thesis using run_op_via_start [of plat ev x st] same failed started by blast
next
  case Tick
  with poll_playback_cases [of plat ev st] have
    "step plat ev x st = Inr st \<or>
      (\<exists>i. 0 \<le> i \<and> i < int (length (playlist st)) \<and> step plat ev x st = start_play plat ev i st)"
    by simp
  then show ?thesis using run_op_via_start [of plat ev x st] same failed started by blast
next
  case ToggleShuffle
  then show ?thesis using toggled by (simp add: run_op_def)
next
  case (SetVolume v)
  then show ?thesis using volume by (simp add: run_op_def)
next
  case Halt
  then show ?thesis using halted by (simp add: run_op_def)
next
  case (LoadPlaylist ps)
  then show ?thesis using loaded by (simp add: run_op_def)
next
  case ClearPlaylist
  then show ?thesis using cleared by (simp add: run_op_def)
next
  case (AddFiles ps)
  then show ?thesis using added by (simp add: run_op_def)
next
  case (AddFolder ps)
  then show ?thesis using walked by (simp add: run_op_def)
qed

section \<open>The current index stays inside the playlist\<close>

lemma length_insert_natural: "length (insert_natural x xs) = Suc (length xs)"
  by (induction xs) simp_all

lemma length_foldl_insert_natural:
  "length (foldl (\<lambda>acc x. insert_natural x acc) acc xs) = length acc + length xs"
  by (induction xs arbitrary: acc) (simp_all add: length_insert_natural)

lemma length_sort_natural: "length (sort_natural xs) = length xs"
  by (simp add: sort_natural_def length_foldl_insert_natural)

lemma length_append_new: "length pl \<le> length (append_new ps pl)"
proof (induction ps arbitrary: pl)
  case Nil
  show ?case by simp
next
  case (Cons p ps)
  have "length pl \<le> length (pl @ [p])" by simp
  also have "\<dots> \<le> length (append_new ps (pl @ [p]))" by (rule Cons.IH)
  finally have "length pl \<le> length (append_new ps (pl @ [p]))" .
  with Cons.IH [of pl] show ?case by simp
qed

lemma length_add_files: "length (playlist st) \<le> length (playlist (add_files ps st))"
  by (simp add: add_files_def length_sort_natural length_append_new)

lemma length_add_folder: "length (playlist st) \<le> length (playlist (add_folder ps st))"
  by (simp add: add_folder_def length_sort_natural length_append_new)

lemma index_ok_same:
  assumes "playlist st' = playlist st" "current_index st' = current_index st" "index_ok st"
  shows "index_ok st'"
  using assms by (simp add: index_ok_def split: option.splits)

lemma index_ok_idle: "current_index st = None \<Longrightarrow> index_ok st"
  by (simp add: index_ok_def)

lemma index_ok_run_op:
  assumes ok: "index_ok st" and en: "enabled x st"
  shows "index_ok (run_op plat ev x st)"
  using en
proof (cases rule: run_op_shape [where plat = plat and ev = ev])
  case same
  with ok show ?thesis by simp
next
  case failed
  then have "engine_state (run_op plat ev x st) = engine_state st"
    by (simp add: start_failed_def)
  from engine_state_fields(1,2) [OF this] ok show ?thesis
    by (rule index_ok_same)
next
  case (started i)
  then show ?thesis by (simp add: index_ok_def start_succeeded_def)
next
  case (paused cur)
  have "playlist (pause_now cur st) = playlist st"
    "current_index (pause_now cur st) = current_index st"
    by (simp_all add: pause_now_def emit_def)
  from this ok have "index_ok (pause_now cur st)" by (rule index_ok_same)
  with paused show ?thesis by simp
next
  case resumed
  have "playlist (resume_now st) = playlist st"
    "current_index (resume_now st) = current_index st"
    by (simp_all add: resume_now_def emit_def)
  from this ok have "index_ok (resume_now st)" by (rule index_ok_same)
  with resumed show ?thesis by simp
next
  case toggled
  have "playlist (toggle_shuffle st) = playlist st"
    "current_index (toggle_shuffle st) = current_index st"
    by (simp_all add: toggle_shuffle_def)
  from this ok have "index_ok (toggle_shuffle st)" by (rule index_ok_same)
  with toggled show ?thesis by simp
next
  case (volume v)
  have "playlist (on_volume v st) = playlist st"
    "current_index (on_volume v st) = current_index st"
    by (simp_all add: on_volume_def emit_def)
  from this ok have "index_ok (on_volume v st)" by (rule index_ok_same)
  with volume show ?thesis by simp
next
  case halted
  have "playlist (halt_playback st) = playlist st"
    "current_index (halt_playback st) = current_index st"
    by (simp_all add: halt_playback_def emit_def)
  from this ok have "index_ok (halt_playback st)" by (rule index_ok_same)
  with halted show ?thesis by simp
next
  case (loaded ps)
  have "current_index (load_playlist_paths ev ps st) = None"
    by (simp add: load_playlist_paths_def)
  with loaded show ?thesis by (simp add: index_ok_idle)
next
  case cleared
  have "current_index (clear_playlist st) = None"
    by (simp add: clear_playlist_def)
  with cleared show ?thesis by (simp add: index_ok_idle)
next
  case (added ps)
  have c: "current_index (add_files ps st) = current_index st"
    by (simp add: add_files_def)
  have "index_ok (add_files ps st)"
    using ok length_add_files [of st ps] unfolding index_ok_def c
    by (auto split: option.splits)
  with added show ?thesis by simp
next
  case (walked ps)
  have c: "current_index (add_folder ps st) = current_index st"
    by (simp add: add_folder_def)
  have "index_ok (add_folder ps st)"
    using ok length_add_folder [of st ps] unfolding index_ok_def c
    by (auto split: option.splits)
  with walked show ?thesis by simp
qed

lemma reachable_index_ok: "reachable plat st \<Longrightarrow> index_ok st"
proof (induction rule: reachable.induct)
  case reachable_init
  show ?case by (simp add: index_ok_def init_player_def)
next
  case (reachable_step st x ev)
  then show ?case by (simp add: index_ok_run_op)
qed

lemma reachable_run_ops:
  "reachable plat st \<Longrightarrow> run_enabled plat ops st \<Longrightarrow> reachable plat (run_ops plat ops st)"
proof (induction ops arbitrary: st)
  case Nil
  then show ?case by simp
next
  case (Cons a ops)
  obtain ev x where a: "a = (ev, x)" by (cases a)
  from Cons.prems a have "reachable plat (run_op plat ev x st)"
    by (simp add: reachable_step)
  with Cons a show ?case by simp
qed

lemma reachable_paused_player: "reachable demo_platform paused_player"
  unfolding paused_player_def
  by (rule reachable_run_ops [OF reachable_init]) code_simp

text \<open>
  C7. In every state reachable from the initial one by the handlers (start of a row,
  play/pause, previous, next, shuffle toggle, volume, halt, playlist load, playlist
  clear, adding files or a folder, progress tick), \<open>current_index\<close> is \<open>None\<close> or an index of
  the playlist.
\<close>

theorem current_index_within_playlist:
  assumes "reachable plat st"
  shows "current_index st = None
       \<or> (\<exists>i. current_index st = Some i \<and> 0 \<le> i \<and> i < int (length (playlist st)))"
  using reachable_index_ok [OF assms]
  by (cases "current_index st") (simp_all add: index_ok_def)

theorem current_index_within_playlist_witness:
  "reachable demo_platform paused_player \<and> current_index paused_player = Some 0
   \<and> length (playlist paused_player) = 3"
proof -
  have c: "current_index paused_player = Some 0" by code_simp
  have l: "length (playlist paused_player) = 3" by code_simp
  from current_index_within_playlist [OF reachable_paused_player] c l reachable_paused_player
  show ?thesis by simp
qed

section \<open>The transcode fallback runs the transcoder on every call\<close>

lemma ffmpeg_runs_emit:
  "ffmpeg_runs (emit e st) = ffmpeg_runs st + (if is_ffmpeg_run e then 1 else 0)"
  by (simp add: ffmpeg_runs_def emit_def)

lemma ffmpeg_runs_temp_files [simp]:
  "ffmpeg_runs (st\<lparr>temp_files := fs\<rparr>) = ffmpeg_runs st"
  by (simp add: ffmpeg_runs_def)

lemma transcode_to_wav_answer:
  "fst (transcode_to_wav plat ev p st) =
     (if ffmpeg_missing ev then Inr None
      else if \<not> mkdir_ok ev then Inl OSError
      else if ffmpeg_run_ok ev p (out_path plat p) \<and> path_exists ev (out_path plat p)
           then Inr (Some (out_path plat p))
      else Inr None)"
  by (simp add: transcode_to_wav_def Let_def)

lemma transcode_to_wav_runs:
  "ffmpeg_runs (snd (transcode_to_wav plat ev p st)) =
     ffmpeg_runs st + (if ffmpeg_missing ev \<or> \<not> mkdir_ok ev then 0 else 1)"
  by (simp add: transcode_to_wav_def Let_def ffmpeg_runs_emit)

text \<open>The answer depends on the outside only, not on the player.\<close>

lemma ensure_playable_path_answer:
  "fst (ensure_playable_path plat ev p st) =
     (if \<not> is_m4a p \<or> load_ok ev p then Inr p
      else case fst (transcode_to_wav plat ev p st) of
             Inl e \<Rightarrow> Inl e
           | Inr (Some wav) \<Rightarrow> Inr wav
           | Inr None \<Rightarrow> Inr p)"
proof (cases "\<not> is_m4a p \<or> load_ok ev p")
  case True
  then show ?thesis by (auto simp: ensure_playable_path_def Let_def)
next
  case False
  obtain r st2 where t: "transcode_to_wav plat ev p (emit (MusicLoad p) st) = (r, st2)"
    by (cases "transcode_to_wav plat ev p (emit (MusicLoad p) st)")
  have "fst (transcode_to_wav plat ev p (emit (MusicLoad p) st)) = fst (transcode_to_wav plat ev p st)"
    by (simp add: transcode_to_wav_answer)
  with t have r: "fst (transcode_to_wav plat ev p st) = r" by simp
  from False t show ?thesis
    unfolding r by (simp add: ensure_playable_path_def Let_def split: sum.splits option.splits)
qed

lemma ensure_playable_path_runs:
  "ffmpeg_runs (snd (ensure_playable_path plat ev p st)) =
     ffmpeg_runs st +
       (if is_m4a p \<and> \<not> load_ok ev p \<and> \<not> ffmpeg_missing ev \<and> mkdir_ok ev then 1 else 0)"
proof (cases "\<not> is_m4a p \<or> load_ok ev p")
  case True
  then show ?thesis by (auto simp: ensure_playable_path_def Let_def ffmpeg_runs_emit)
next
  case False
  obtain r st2 where t: "transcode_to_wav plat ev p (emit (MusicLoad p) st) = (r, st2)"
    by (cases "transcode_to_wav plat ev p (emit (MusicLoad p) st)")
  have "ffmpeg_runs st2 = ffmpeg_runs (emit (MusicLoad p) st)
          + (if ffmpeg_missing ev \<or> \<not> mkdir_ok ev then 0 else 1)"
    using transcode_to_wav_runs [of plat ev p "emit (MusicLoad p) st"] t by simp
  then have "ffmpeg_runs st2 = ffmpeg_runs st
          + (if ffmpeg_missing ev \<or> \<not> mkdir_ok ev then 0 else 1)"
    by (simp add: ffmpeg_runs_emit)
  moreover from False t have "snd (ensure_playable_path plat ev p st) = st2"
    by (simp add: ensure_playable_path_def Let_def split: sum.splits option.splits)
  ultimately show ?thesis using False by simp
qed

lemma resolve_twice_parts:
  "fst (resolve_twice plat ev p st) = fst (ensure_playable_path plat ev p st)"
  "fst (snd (resolve_twice plat ev p st)) =
     fst (ensure_playable_path plat ev p (snd (ensure_playable_path plat ev p st)))"
  "snd (snd (resolve_twice plat ev p st)) =
     snd (ensure_playable_path plat ev p (snd (ensure_playable_path plat ev p st)))"
  by (simp_all add: resolve_twice_def split: prod.splits)

lemma ensure_playable_path_answer_state:
  "fst (ensure_playable_path plat ev p st') = fst (ensure_playable_path plat ev p st)"
  by (simp add: ensure_playable_path_answer transcode_to_wav_answer)

text \<open>
  Two calls in a row, the outside answering alike both times: the same answer both
  times, and one run of the transcoder by each call that reaches the fallback (an
  m4a file the mixer cannot load, ffmpeg installed, the cache directory made).
\<close>

lemma ensure_playable_path_twice_runs:
  "fst (snd (resolve_twice plat ev p st)) = fst (resolve_twice plat ev p st)
   \<and> ffmpeg_runs (snd (snd (resolve_twice plat ev p st))) =
       ffmpeg_runs st +
         (if is_m4a p \<and> \<not> load_ok ev p \<and> \<not> ffmpeg_missing ev \<and> mkdir_ok ev then 2 else 0)"
proof -
  have "fst (snd (resolve_twice plat ev p st)) = fst (resolve_twice plat ev p st)"
    unfolding resolve_twice_parts by (rule ensure_playable_path_answer_state)
  moreover have "ffmpeg_runs (snd (snd (resolve_twice plat ev p st))) =
       ffmpeg_runs st +
         (if is_m4a p \<and> \<not> load_ok ev p \<and> \<not> ffmpeg_missing ev \<and> mkdir_ok ev then 2 else 0)"
    unfolding resolve_twice_parts ensure_playable_path_runs by simp
  ultimately show ?thesis ..
qed

text \<open>
  C2 asks that two calls of \<^verbatim>\<open>_ensure_playable_path\<close> on a source whose native load
  fails give the same output path and run the transcoder at most once, the second
  call reusing the cached output. The code, evaluated on the m4a file of the example
  with ffmpeg installed: both calls answer the same path in the cache directory, the
  output exists when the second call is made, and the transcoder has been run
  twice. \<^verbatim>\<open>_transcode_to_wav\<close> names the output by the hash of the source path in
  \<^verbatim>\<open>mp3player_cache\<close> but never looks for it before it runs ffmpeg.
\<close>

theorem ensure_playable_path_twice_runs_transcoder_twice:
  "is_m4a ''/m/b.m4a'' \<and> \<not> load_ok quiet_env ''/m/b.m4a''
   \<and> fst (resolve_twice demo_platform quiet_env ''/m/b.m4a'' idle_player)
       = Inr ''/tmp/mp3player_cache/b_0123456789ab.wav''
   \<and> fst (snd (resolve_twice demo_platform quiet_env ''/m/b.m4a'' idle_player))
       = Inr ''/tmp/mp3player_cache/b_0123456789ab.wav''
   \<and> path_exists quiet_env ''/tmp/mp3player_cache/b_0123456789ab.wav''
   \<and> ffmpeg_runs idle_player = 0
   \<and> ffmpeg_runs (snd (snd (resolve_twice demo_platform quiet_env ''/m/b.m4a'' idle_player))) = 2"
  by code_simp

section \<open>A failed start\<close>

text \<open>The exception that leaves the load/play path depends on the outside only.\<close>

lemma load_and_play_outcome:
  "fst (load_and_play plat ev p st) =
     (case fst (ensure_playable_path plat ev p st) of
        Inl e \<Rightarrow> Some e
      | Inr q \<Rightarrow> if load_ok ev q \<and> play_ok ev then None else Some PygameError)"
  by (simp add: load_and_play_def Let_def split: prod.splits sum.splits)

text \<open>
  C5, as the code has it. For an index of the playlist and any failure of the
  load/play path (the transcode fallback, the load or the play raises),
  \<^verbatim>\<open>_start_play\<close> returns normally, leaves \<open>current_index\<close>, \<open>paused\<close>,
  \<open>user_stopped\<close>, \<open>elapsed_base_ms\<close> and \<open>track_duration_s\<close> (and the playlist and
  the shuffle flag) as they were, and its last effect is the error dialog for the
  track; every later progress tick returns normally too. The current index is never
  moved to the track that failed: it points at that track afterwards only if it did
  so before the attempt.
\<close>

theorem start_play_failure_keeps_state:
  assumes i0: "0 \<le> i" and i1: "i < int (length (playlist st))"
    and fails: "fst (load_and_play plat ev (playlist st ! nat i) st) = Some e"
  shows "\<exists>st' m. start_play plat ev i st = Inr st'
           \<and> current_index st' = current_index st \<and> paused st' = paused st
           \<and> user_stopped st' = user_stopped st
           \<and> elapsed_base_ms st' = elapsed_base_ms st
           \<and> track_duration_s st' = track_duration_s st
           \<and> playlist st' = playlist st \<and> shuffle st' = shuffle st
           \<and> effects st' \<noteq> [] \<and> last (effects st') = ShowError (playlist st ! nat i) m
           \<and> (\<forall>ev'. \<exists>s. poll_playback plat ev' st' = Inr s)
           \<and> (current_index st' = Some i \<longrightarrow> current_index st = Some i)"
proof -
  define orig where "orig = playlist st ! nat i"
  obtain r st1 where l: "load_and_play plat ev orig st = (r, st1)"
    by (cases "load_and_play plat ev orig st")
  with fails have r: "r = Some e" by (simp add: orig_def)
  define m where
    "m = (if is_m4a orig \<and> ffmpeg_missing ev then InstallFfmpeg else ExceptionText e)"
  define st' where "st' = emit (ShowError orig m) st1"
  have s: "start_play plat ev i st = Inr st'"
    using start_play_failure [OF i0 i1, of plat ev e st1] l r
    by (simp add: orig_def st'_def m_def)
  have "engine_state st1 = engine_state st"
    using load_and_play_engine [of plat ev orig st] l by simp
  then have "engine_state st' = engine_state st"
    by (simp add: st'_def engine_state_emit)
  note f = engine_state_fields [OF this]
  have eff: "effects st' \<noteq> [] \<and> last (effects st') = ShowError orig m"
    by (simp add: st'_def emit_def)
  have "\<forall>ev'. \<exists>s. poll_playback plat ev' st' = Inr s"
    using poll_playback_never_raises by blast
  moreover have "current_index st' = Some i \<longrightarrow> current_index st = Some i"
    using f(2) by simp
  ultimately show ?thesis
    using s f eff unfolding orig_def by blast
qed

theorem start_play_failure_keeps_state_witness:
  "(0::int) \<le> 1 \<and> 1 < int (length (playlist paused_player))
   \<and> fst (load_and_play demo_platform no_ffmpeg_env (playlist paused_player ! nat 1) paused_player)
       = Some PygameError
   \<and> (\<exists>st'. start_play demo_platform no_ffmpeg_env 1 paused_player = Inr st'
          \<and> current_index st' = Some 0 \<and> current_index st' \<noteq> Some 1
          \<and> paused st' \<and> elapsed_base_ms st' = 1500
          \<and> last (effects st') = ShowError ''/m/b.m4a'' InstallFfmpeg)"
proof -
  have a: "(0::int) \<le> 1" by simp
  have b: "1 < int (length (playlist paused_player))" by code_simp
  have c: "fst (load_and_play demo_platform no_ffmpeg_env (playlist paused_player ! nat 1) paused_player)
       = Some PygameError" by code_simp
  have d: "current_index paused_player = Some 0" "paused paused_player"
    "elapsed_base_ms paused_player = 1500" by code_simp+
  have e: "last (effects (case start_play demo_platform no_ffmpeg_env 1 paused_player of
             Inr s \<Rightarrow> s | Inl x \<Rightarrow> paused_player)) = ShowError ''/m/b.m4a'' InstallFfmpeg"
    by code_simp
  from start_play_failure_keeps_state [OF a b c]
  obtain st' m where "start_play demo_platform no_ffmpeg_env 1 paused_player = Inr st'"
    "current_index st' = current_index paused_player" "paused st' = paused paused_player"
    "elapsed_base_ms st' = elapsed_base_ms paused_player" by blast
  with a b c d e show ?thesis by simp
qed

text \<open>
  C5 as stated also asks that no failure leaves \<open>current_index\<close> pointing at a
  track that failed to load. When the track that fails is the current one, it does:
  a restart of the playing track on a mixer that refuses the load, and, without any
  user action, the auto-advance of a one-track playlist, which starts track 0 again.
\<close>

theorem start_play_failure_on_current_track_counterexample:
  "(0::int) \<le> 0 \<and> 0 < int (length (playlist playing_player))
   \<and> current_index playing_player = Some 0
   \<and> fst (load_and_play demo_platform deaf_env (playlist playing_player ! nat 0) playing_player)
       = Some PygameError
   \<and> current_index (run_op demo_platform deaf_env (Start 0) playing_player) = Some 0
   \<and> last (effects (run_op demo_platform deaf_env (Start 0) playing_player))
       = ShowError ''/m/a.mp3'' (ExceptionText PygameError)
   \<and> playlist single_player = [''/m/a.mp3''] \<and> current_index single_player = Some 0
   \<and> current_index (run_op demo_platform deaf_env Tick single_player) = Some 0
   \<and> last (effects (run_op demo_platform deaf_env Tick single_player))
       = ShowError ''/m/a.mp3'' (ExceptionText PygameError)"
  by code_simp

section \<open>Play/pause and next on an idle player\<close>

text \<open>
  C8. With no active track and a non-empty playlist, \<^verbatim>\<open>play_pause\<close> is
  \<^verbatim>\<open>_start_play(0)\<close>: the same result, hence the same state after the handler.
\<close>

theorem play_pause_idle_is_start_0:
  assumes "current_index st = None" and "playlist st \<noteq> []"
  shows "play_pause plat ev st = start_play plat ev 0 st
       \<and> run_op plat ev PlayPause st = run_op plat ev (Start 0) st"
  using assms by (simp add: play_pause_def run_op_def)

theorem play_pause_idle_is_start_0_witness:
  "current_index idle_player = None \<and> playlist idle_player \<noteq> []
   \<and> play_pause demo_platform quiet_env idle_player = start_play demo_platform quiet_env 0 idle_player
   \<and> current_index (run_op demo_platform quiet_env PlayPause idle_player) = Some 0"
proof -
  have a: "current_index idle_player = None" by code_simp
  have b: "playlist idle_player \<noteq> []" by code_simp
  have c: "current_index (run_op demo_platform quiet_env (Start 0) idle_player) = Some 0"
    by code_simp
  from play_pause_idle_is_start_0 [OF a b, of demo_platform quiet_env] a b c
  show ?thesis by simp
qed

text \<open>
  C10. With a non-empty playlist, shuffle off and no active track, \<^verbatim>\<open>next_track\<close> is
  \<^verbatim>\<open>_start_play(0)\<close>; when the load/play path succeeds, index 0 becomes the current
  track and the play command is the last effect.
\<close>

theorem next_track_idle_sequential_starts_at_0:
  assumes ne: "playlist st \<noteq> []" and seq: "\<not> shuffle st" and idle: "current_index st = None"
  shows "next_track plat ev st = start_play plat ev 0 st
       \<and> (fst (load_and_play plat ev (playlist st ! 0) st) = None \<longrightarrow>
            (\<exists>st'. next_track plat ev st = Inr st' \<and> current_index st' = Some 0
                  \<and> last (effects st') = MusicPlay))"
proof -
  have eq: "next_track plat ev st = start_play plat ev 0 st"
    using assms by (simp add: next_track_def)
  have "\<exists>st'. next_track plat ev st = Inr st' \<and> current_index st' = Some 0
                  \<and> last (effects st') = MusicPlay"
    if ok: "fst (load_and_play plat ev (playlist st ! 0) st) = None"
  proof -
    obtain r st1 where l: "load_and_play plat ev (playlist st ! nat 0) st = (r, st1)"
      by (cases "load_and_play plat ev (playlist st ! nat 0) st")
    with ok have r: "r = None" by simp
    from ne have i: "(0::int) \<le> 0" "0 < int (length (playlist st))" by simp_all
    from start_play_success [OF i, of plat ev st1] l r
    have s: "start_play plat ev 0 st =
           Inr (st1\<lparr>current_index := Some 0, user_stopped := False, paused := False,
                    elapsed_base_ms := 0,
                    track_duration_s := read_duration_seconds ev (playlist st ! nat 0)\<rparr>)"
      by simp
    from load_and_play_success_effects [of plat ev "playlist st ! nat 0" st st1] l r
    have "last (effects st1) = MusicPlay" by simp
    with s eq show ?thesis by simp
  qed
  with eq show ?thesis by blast
qed

theorem next_track_idle_sequential_starts_at_0_witness:
  "playlist idle_player \<noteq> [] \<and> \<not> shuffle idle_player \<and> current_index idle_player = None
   \<and> fst (load_and_play demo_platform quiet_env (playlist idle_player ! 0) idle_player) = None
   \<and> next_track demo_platform quiet_env idle_player = start_play demo_platform quiet_env 0 idle_player
   \<and> current_index (run_op demo_platform quiet_env Next idle_player) = Some 0"
proof -
  have a: "playlist idle_player \<noteq> []" by code_simp
  have b: "\<not> shuffle idle_player" by code_simp
  have c: "current_index idle_player = None" by code_simp
  have d: "fst (load_and_play demo_platform quiet_env (playlist idle_player ! 0) idle_player) = None"
    by code_simp
  have e: "current_index (run_op demo_platform quiet_env Next idle_player) = Some 0"
    by code_simp
  from next_track_idle_sequential_starts_at_0 [OF a b c, of demo_platform quiet_env] a b c d e
  show ?thesis by simp
qed

section \<open>Auto-advance\<close>

lemma poll_after_halt_fields:
  "user_stopped (halt_playback st)" "user_stopped (clear_playlist st)"
  "user_stopped (load_playlist_paths ev ps st)"
  by (simp_all add: halt_playback_def clear_playlist_def load_playlist_paths_def emit_def)

text \<open>
  C3. A progress tick runs \<^verbatim>\<open>next_track\<close> exactly when the mixer is not busy, the
  player is not paused, \<open>user_stopped\<close> is false and a track is active, and leaves
  the player untouched otherwise; in sequential order the advance is the start of
  the successor. Right after \<^verbatim>\<open>_halt_playback\<close> (also through clearing or loading a
  playlist) a tick does nothing, whatever the mixer reports.
\<close>

theorem poll_playback_advances_iff:
  "poll_playback plat ev st =
     (if \<not> get_busy ev \<and> \<not> paused st \<and> \<not> user_stopped st \<and> current_index st \<noteq> None
      then next_track plat ev st else Inr st)
   \<and> (current_index st = Some c \<and> \<not> get_busy ev \<and> \<not> paused st \<and> \<not> user_stopped st
        \<and> \<not> shuffle st \<and> playlist st \<noteq> []
      \<longrightarrow> poll_playback plat ev st
            = start_play plat ev ((c + 1) mod int (length (playlist st))) st)
   \<and> poll_playback plat ev' (halt_playback st) = Inr (halt_playback st)
   \<and> poll_playback plat ev' (clear_playlist st) = Inr (clear_playlist st)
   \<and> poll_playback plat ev' (load_playlist_paths ev ps st) = Inr (load_playlist_paths ev ps st)"
  by (simp add: poll_playback_def poll_after_halt_fields next_track_def)

theorem poll_playback_advances_iff_witness:
  "\<not> get_busy quiet_env \<and> \<not> paused playing_player \<and> \<not> user_stopped playing_player
   \<and> current_index playing_player = Some 0
   \<and> poll_playback demo_platform quiet_env playing_player
       = next_track demo_platform quiet_env playing_player
   \<and> current_index (run_op demo_platform quiet_env Tick playing_player) = Some 1
   \<and> run_op demo_platform quiet_env Tick (halt_playback playing_player) = halt_playback playing_player
   \<and> run_op demo_platform quiet_env Tick paused_player = paused_player"
proof -
  have a: "\<not> get_busy quiet_env" "\<not> paused playing_player" "\<not> user_stopped playing_player"
    "current_index playing_player = Some 0" by code_simp+
  have b: "current_index (run_op demo_platform quiet_env Tick playing_player) = Some 1"
    by code_simp
  have c: "paused paused_player" by code_simp
  from poll_playback_advances_iff [of demo_platform quiet_env playing_player 0 quiet_env "[]"]
    poll_playback_advances_iff [of demo_platform quiet_env paused_player 0 quiet_env "[]"]
    a b c
  show ?thesis by (simp add: run_op_def)
qed

section \<open>Halt\<close>

text \<open>
  C4. The program halts playback when it clears or loads a playlist: the helper
  \<^verbatim>\<open>_halt_playback\<close>, which sets \<open>user_stopped\<close>, calls the mixer's stop and resets
  \<open>elapsed_base_ms\<close> to 0, and on the next line of either caller the reset of
  \<open>current_index\<close> to \<open>None\<close>. From every state, each of the two halts establishes
  all four postconditions.
\<close>

theorem halt_establishes_postconditions:
  "user_stopped (clear_playlist st)
   \<and> effects (clear_playlist st) = effects st @ [MusicStop]
   \<and> current_index (clear_playlist st) = None
   \<and> elapsed_base_ms (clear_playlist st) = 0
   \<and> user_stopped (load_playlist_paths ev ps st)
   \<and> effects (load_playlist_paths ev ps st) = effects st @ [MusicStop]
   \<and> current_index (load_playlist_paths ev ps st) = None
   \<and> elapsed_base_ms (load_playlist_paths ev ps st) = 0
   \<and> user_stopped (halt_playback st)
   \<and> effects (halt_playback st) = effects st @ [MusicStop]
   \<and> elapsed_base_ms (halt_playback st) = 0
   \<and> clear_playlist st = (halt_playback st)\<lparr>current_index := None, playlist := []\<rparr>
   \<and> run_op plat ev ClearPlaylist st = clear_playlist st
   \<and> run_op plat ev (LoadPlaylist ps) st = load_playlist_paths ev ps st"
  by (simp add: halt_playback_def clear_playlist_def load_playlist_paths_def emit_def
      run_op_def)

theorem halt_establishes_postconditions_witness:
  "current_index paused_player = Some 0 \<and> \<not> user_stopped paused_player
   \<and> elapsed_base_ms paused_player = 1500
   \<and> user_stopped (run_op demo_platform quiet_env ClearPlaylist paused_player)
   \<and> effects (run_op demo_platform quiet_env ClearPlaylist paused_player)
       = effects paused_player @ [MusicStop]
   \<and> current_index (run_op demo_platform quiet_env ClearPlaylist paused_player) = None
   \<and> elapsed_base_ms (run_op demo_platform quiet_env ClearPlaylist paused_player) = 0
   \<and> current_index (run_op demo_platform quiet_env (LoadPlaylist demo_files) paused_player)
       = None"
proof -
  have a: "current_index paused_player = Some 0" "\<not> user_stopped paused_player"
    "elapsed_base_ms paused_player = 1500" by code_simp+
  from halt_establishes_postconditions [of paused_player quiet_env demo_files demo_platform] a
  show ?thesis by simp
qed

section \<open>Volume\<close>




section \<open>The elapsed clock\<close>

lemma elapsed_run_op:
  assumes en: "enabled x st"
  shows "elapsed_base_ms (run_op plat ev x st) = elapsed_base_ms st
       \<or> (x = PlayPause \<and> elapsed_base_ms st < elapsed_base_ms (run_op plat ev x st))
       \<or> (elapsed_base_ms (run_op plat ev x st) = 0
           \<and> (x = Halt \<or> x = ClearPlaylist \<or> (\<exists>ps. x = LoadPlaylist ps)
               \<or> last (effects (run_op plat ev x st)) = MusicPlay))"
  using en
proof (cases rule: run_op_shape [where plat = plat and ev = ev])
  case same
  then show ?thesis by simp
next
  case failed
  then have "engine_state (run_op plat ev x st) = engine_state st"
    by (simp add: start_failed_def)
  from engine_state_fields(7) [OF this] show ?thesis by simp
next
  case (started i)
  then show ?thesis by (simp add: start_succeeded_def)
next
  case (paused cur)
  have "elapsed_base_ms (pause_now cur st) = elapsed_base_ms st + cur"
    by (simp add: pause_now_def emit_def)
  with paused show ?thesis by (cases "cur = 0") simp_all
next
  case resumed
  have "elapsed_base_ms (resume_now st) = elapsed_base_ms st"
    by (simp add: resume_now_def emit_def)
  with resumed show ?thesis by simp
next
  case toggled
  have "elapsed_base_ms (toggle_shuffle st) = elapsed_base_ms st"
    by (simp add: toggle_shuffle_def)
  with toggled show ?thesis by simp
next
  case (volume v)
  have "elapsed_base_ms (on_volume v st) = elapsed_base_ms st"
    by (simp add: on_volume_def emit_def)
  with volume show ?thesis by simp
next
  case halted
  have "elapsed_base_ms (halt_playback st) = 0"
    by (simp add: halt_playback_def emit_def)
  with halted show ?thesis by simp
next
  case (loaded ps)
  have "elapsed_base_ms (load_playlist_paths ev ps st) = 0"
    by (simp add: load_playlist_paths_def halt_playback_def emit_def)
  with loaded show ?thesis by simp
next
  case cleared
  have "elapsed_base_ms (clear_playlist st) = 0"
    by (simp add: clear_playlist_def halt_playback_def emit_def)
  with cleared show ?thesis by simp
next
  case (added ps)
  have "elapsed_base_ms (add_files ps st) = elapsed_base_ms st"
    by (simp add: add_files_def)
  with added show ?thesis by simp
next
  case (walked ps)
  have "elapsed_base_ms (add_folder ps st) = elapsed_base_ms st"
    by (simp add: add_folder_def)
  with walked show ?thesis by simp
qed

lemma reachable_elapsed_nonneg: "reachable plat st \<Longrightarrow> 0 \<le> elapsed_base_ms st"
proof (induction rule: reachable.induct)
  case reachable_init
  show ?case by (simp add: init_player_def)
next
  case (reachable_step st x ev)
  from elapsed_run_op [OF reachable_step.hyps(2), of plat ev] reachable_step.IH
  show ?case by auto
qed

lemma start_play_success_elapsed:
  assumes "0 \<le> i" "i < int (length (playlist st))"
    and "fst (load_and_play plat ev (playlist st ! nat i) st) = None"
  shows "\<exists>st'. start_play plat ev i st = Inr st' \<and> elapsed_base_ms st' = 0
           \<and> current_index st' = Some i"
proof -
  obtain r st1 where l: "load_and_play plat ev (playlist st ! nat i) st = (r, st1)"
    by (cases "load_and_play plat ev (playlist st ! nat i) st")
  with assms(3) have "r = None" by simp
  with l start_play_success [OF assms(1,2), of plat ev st1] show ?thesis by simp
qed

text \<open>
  C6, as the code has it. In every reachable state \<open>elapsed_base_ms\<close> is not
  negative. It is reset to 0 by \<^verbatim>\<open>_halt_playback\<close> and by every start whose load/play
  path succeeds. A handler that changes it at all either is the pausing
  \<^verbatim>\<open>play_pause\<close>, which raises it, or resets it to 0, and then it is the halt, the
  clearing or loading of a playlist, or a start that succeeded (the play command is
  its last effect).
\<close>

theorem elapsed_base_ms_nonneg_reset_by_start_or_halt:
  assumes "reachable plat st"
  shows "0 \<le> elapsed_base_ms st
       \<and> elapsed_base_ms (halt_playback st) = 0
       \<and> (\<forall>ev i. 0 \<le> i \<and> i < int (length (playlist st))
                 \<and> fst (load_and_play plat ev (playlist st ! nat i) st) = None
             \<longrightarrow> (\<exists>st'. start_play plat ev i st = Inr st' \<and> elapsed_base_ms st' = 0))
       \<and> (\<forall>ev x. enabled x st \<and> elapsed_base_ms (run_op plat ev x st) \<noteq> elapsed_base_ms st
             \<longrightarrow> (x = PlayPause \<and> elapsed_base_ms st < elapsed_base_ms (run_op plat ev x st))
                \<or> (elapsed_base_ms (run_op plat ev x st) = 0
                    \<and> (x = Halt \<or> x = ClearPlaylist \<or> (\<exists>ps. x = LoadPlaylist ps)
                        \<or> last (effects (run_op plat ev x st)) = MusicPlay)))"
proof -
  have a: "0 \<le> elapsed_base_ms st"
    using assms by (rule reachable_elapsed_nonneg)
  have b: "elapsed_base_ms (halt_playback st) = 0"
    by (simp add: halt_playback_def emit_def)
  have c: "\<forall>ev i. 0 \<le> i \<and> i < int (length (playlist st))
                 \<and> fst (load_and_play plat ev (playlist st ! nat i) st) = None
             \<longrightarrow> (\<exists>st'. start_play plat ev i st = Inr st' \<and> elapsed_base_ms st' = 0)"
    using start_play_success_elapsed by blast
  have d: "\<forall>ev x. enabled x st \<and> elapsed_base_ms (run_op plat ev x st) \<noteq> elapsed_base_ms st
             \<longrightarrow> (x = PlayPause \<and> elapsed_base_ms st < elapsed_base_ms (run_op plat ev x st))
                \<or> (elapsed_base_ms (run_op plat ev x st) = 0
                    \<and> (x = Halt \<or> x = ClearPlaylist \<or> (\<exists>ps. x = LoadPlaylist ps)
                        \<or> last (effects (run_op plat ev x st)) = MusicPlay))"
  proof (intro allI impI)
    fix ev x
    assume h: "enabled x st \<and> elapsed_base_ms (run_op plat ev x st) \<noteq> elapsed_base_ms st"
    with elapsed_run_op [of x st plat ev]
    show "(x = PlayPause \<and> elapsed_base_ms st < elapsed_base_ms (run_op plat ev x st))
                \<or> (elapsed_base_ms (run_op plat ev x st) = 0
                    \<and> (x = Halt \<or> x = ClearPlaylist \<or> (\<exists>ps. x = LoadPlaylist ps)
                        \<or> last (effects (run_op plat ev x st)) = MusicPlay))"
      by blast
  qed
  from a b c d show ?thesis by blast
qed

theorem elapsed_base_ms_nonneg_reset_by_start_or_halt_witness:
  "reachable demo_platform paused_player \<and> elapsed_base_ms paused_player = 1500
   \<and> enabled Next paused_player
   \<and> elapsed_base_ms (run_op demo_platform quiet_env Next paused_player) = 0
   \<and> last (effects (run_op demo_platform quiet_env Next paused_player)) = MusicPlay
   \<and> elapsed_base_ms (halt_playback paused_player) = 0"
proof -
  have a: "elapsed_base_ms paused_player = 1500" by code_simp
  have b: "enabled Next paused_player" by simp
  have c: "elapsed_base_ms (run_op demo_platform quiet_env Next paused_player) = 0"
    by code_simp
  have d: "last (effects (run_op demo_platform quiet_env Next paused_player)) = MusicPlay"
    by code_simp
  from elapsed_base_ms_nonneg_reset_by_start_or_halt [OF reachable_paused_player]
  have "elapsed_base_ms (halt_playback paused_player) = 0" by blast
  with a b c d reachable_paused_player show ?thesis by simp
qed

text \<open>
  C6 as stated makes the start the only reset. On a player paused 1500 ms into a
  track, the halt resets the clock to 0, and it starts nothing: its only effect is
  the mixer's stop.
\<close>

theorem elapsed_base_ms_reset_by_halt_counterexample:
  "elapsed_base_ms paused_player = 1500
   \<and> elapsed_base_ms (run_op demo_platform quiet_env Halt paused_player) = 0
   \<and> effects (run_op demo_platform quiet_env Halt paused_player)
       = effects paused_player @ [MusicStop]
   \<and> current_index (run_op demo_platform quiet_env Halt paused_player)
       = current_index paused_player"
  by code_simp

end
